theory Spec2Isabelle
  imports Main "HOL-Library.Word"
begin

section \<open>Data model of \<open>lib/cgpt/lib/benchmarks.cc\<close>\<close>

text \<open>
  \<open>size_t\<close> is the unsigned 64-bit integer of the platforms the library is built for:
  addition, subtraction and multiplication wrap around modulo \<open>2 ^ 64\<close>.
\<close>

type_synonym size_t = "64 word"

text \<open>
  Everything the source leaves undefined (a read past the end of a vector, a division by
  zero, the use of a deleted object) and the failed \<open>ASSERT\<close> are error values.
\<close>

datatype error =
    KernelIndexOutOfRange
  | DivisionByZero
  | AssertFailed
  | ViewIndexOutOfRange
  | InvalidPointer
  | UseAfterDelete
  | DoubleDelete
  | SiteOutOfRange

text \<open>
  \<open>struct micro_kernel_arg_t\<close>: the vector of \<open>ViewContainerBase*\<close> (addresses of
  heap objects) and the recorded site count. A default-constructed value has an empty
  vector and an indeterminate \<open>o_sites\<close>.
\<close>

record micro_kernel_arg_t =
  views :: "nat list"
  o_sites :: size_t

text \<open>
  \<open>micro_kernel_action_t\<close> is a pointer to any function of the argument block and two
  indices; \<open>'s\<close> is the state it runs on. \<open>struct micro_kernel_t\<close> pairs it with its
  argument block.
\<close>

type_synonym 's micro_kernel_action_t =
  "micro_kernel_arg_t \<Rightarrow> size_t \<Rightarrow> size_t \<Rightarrow> 's \<Rightarrow> error + 's"

record 's micro_kernel_t =
  action :: "'s micro_kernel_action_t"
  arg :: micro_kernel_arg_t

section \<open>The executor \<open>eval_micro_kernels\<close>\<close>

text \<open>
  The three index expressions of the double loop, in \<open>size_t\<close> arithmetic:
  the loop bound \<open>(o_sites + block_size - 1)/block_size\<close>,
  \<open>j0 = std::min(j*block_size, o_sites)\<close> and
  \<open>j1 = std::min(j0 + block_size, o_sites)\<close>.
\<close>

definition block_count :: "size_t \<Rightarrow> size_t \<Rightarrow> size_t" where
  "block_count osites block_size = (osites + block_size - 1) div block_size"

definition block_j0 :: "size_t \<Rightarrow> size_t \<Rightarrow> size_t \<Rightarrow> size_t" where
  "block_j0 osites block_size j = min (j * block_size) osites"

definition block_j1 :: "size_t \<Rightarrow> size_t \<Rightarrow> size_t \<Rightarrow> size_t" where
  "block_j1 osites block_size j = min (block_j0 osites block_size j + block_size) osites"

text \<open>
  The inner loop \<open>for (size_t i=0;i<n;i++)\<close> visits \<open>kernels[0]\<close>, ..., \<open>kernels[n-1]\<close>
  in order and calls \<open>k.action(k.arg, j0, j1)\<close>; an action that fails ends the run.
\<close>

fun kernel_loop ::
  "'s micro_kernel_t list \<Rightarrow> size_t \<Rightarrow> size_t \<Rightarrow> size_t \<Rightarrow> 's \<Rightarrow> error + 's" where
  "kernel_loop [] osites block_size j s = Inr s"
| "kernel_loop (k # ks) osites block_size j s =
     (let j0 = block_j0 osites block_size j;
          j1 = block_j1 osites block_size j
      in case action k (arg k) j0 j1 s of
           Inl e \<Rightarrow> Inl e
         | Inr s' \<Rightarrow> kernel_loop ks osites block_size j s')"

text \<open>
  The outer loop \<open>for (size_t j=0; j<(o_sites + block_size - 1)/block_size; j++)\<close>.
  The bound is computed at every test; with \<open>block_size = 0\<close> the first test divides
  by zero.
\<close>

function block_loop ::
  "'s micro_kernel_t list \<Rightarrow> size_t \<Rightarrow> size_t \<Rightarrow> size_t \<Rightarrow> 's \<Rightarrow> error + 's" where
  "block_loop kernels osites block_size j s =
     (if block_size = 0 then Inl DivisionByZero
      else if j < block_count osites block_size then
        (case kernel_loop kernels osites block_size j s of
           Inl e \<Rightarrow> Inl e
         | Inr s' \<Rightarrow> block_loop kernels osites block_size (j + 1) s')
      else Inr s)"
  by pat_completeness auto
termination
proof (relation "measure (\<lambda>(kernels, osites, block_size, j, s).
                    unat (block_count osites block_size) - unat j)")
  show "wf (measure (\<lambda>(kernels :: 's micro_kernel_t list, osites, block_size, j, s :: 's).
                    unat (block_count osites block_size) - unat j))"
    by simp
next
  fix kernels :: "'s micro_kernel_t list" and osites block_size j :: size_t and s x2 :: 's
  assume "j < block_count osites block_size"
  then have "unat j < unat (block_count osites block_size)"
    by (simp add: word_less_nat_alt)
  moreover have "unat (block_count osites block_size) < 2 ^ LENGTH(64)"
    by (rule unsigned_less)
  ultimately have "unat j + unat (1 :: size_t) < 2 ^ LENGTH(64)"
    by simp
  then have "unat (j + 1) = unat j + 1"
    by (simp add: unat_add_lem [THEN iffD1])
  moreover note \<open>unat j < unat (block_count osites block_size)\<close>
  ultimately show "((kernels, osites, block_size, j + 1, x2), (kernels, osites, block_size, j, s))
      \<in> measure (\<lambda>(kernels, osites, block_size, j, s).
                    unat (block_count osites block_size) - unat j)"
    by simp
qed

text \<open>
  \<open>eval_micro_kernels\<close>: \<open>kernels[0].arg.o_sites\<close> is read before the loops start; on
  an empty vector the read is out of range.
\<close>

definition eval_micro_kernels ::
  "'s micro_kernel_t list \<Rightarrow> size_t \<Rightarrow> 's \<Rightarrow> error + 's" where
  "eval_micro_kernels kernels block_size s =
     (case kernels of
        [] \<Rightarrow> Inl KernelIndexOutOfRange
      | k0 # _ \<Rightarrow> block_loop kernels (o_sites (arg k0)) block_size 0 s)"

text \<open>
  The order of calls one pass makes, written as a list: the blocks in ascending \<open>j\<close>,
  and for each block every kernel of the schedule in order. \<open>run_invocations\<close> makes
  the calls of such a list one after the other.
\<close>

definition block_indices :: "size_t \<Rightarrow> size_t \<Rightarrow> size_t list" where
  "block_indices osites block_size =
     map of_nat [0 ..< unat (block_count osites block_size)]"

definition blocks :: "size_t \<Rightarrow> size_t \<Rightarrow> (size_t \<times> size_t) list" where
  "blocks osites block_size =
     map (\<lambda>j. (block_j0 osites block_size j, block_j1 osites block_size j))
       (block_indices osites block_size)"

definition schedule_order ::
  "'s micro_kernel_t list \<Rightarrow> size_t \<Rightarrow> size_t \<Rightarrow> ('s micro_kernel_t \<times> size_t \<times> size_t) list" where
  "schedule_order kernels osites block_size =
     concat (map (\<lambda>(i0, i1). map (\<lambda>k. (k, i0, i1)) kernels) (blocks osites block_size))"

fun run_invocations ::
  "('s micro_kernel_t \<times> size_t \<times> size_t) list \<Rightarrow> 's \<Rightarrow> error + 's" where
  "run_invocations [] s = Inr s"
| "run_invocations ((k, i0, i1) # rest) s =
     (case action k (arg k) i0 i1 s of
        Inl e \<Rightarrow> Inl e
      | Inr s' \<Rightarrow> run_invocations rest s')"

text \<open>
  The untiled baseline of the specification: every kernel action once over the full
  range \<open>[0, extent)\<close>, in schedule order.
\<close>

fun untiled_baseline :: "'s micro_kernel_t list \<Rightarrow> size_t \<Rightarrow> 's \<Rightarrow> error + 's" where
  "untiled_baseline [] extent s = Inr s"
| "untiled_baseline (k # ks) extent s =
     (case action k (arg k) 0 extent s of
        Inl e \<Rightarrow> Inl e
      | Inr s' \<Rightarrow> untiled_baseline ks extent s')"

text \<open>
  The number of blocks the specification asks for: \<open>ceil(extent / block_size)\<close>, over the
  natural numbers.
\<close>

definition ceil_div :: "nat \<Rightarrow> nat \<Rightarrow> nat" where
  "ceil_div extent block_size = (extent + block_size - 1) div block_size"

section \<open>Fields, views and view sets\<close>

text \<open>
  Modelled from the spec: the access modes of a view (Read, Write-Discard, Read-Write);
  the enumeration \<open>ViewMode\<close> is declared outside this file, the names are those the
  source uses.
\<close>

datatype ViewMode = AcceleratorRead | AcceleratorWrite | AcceleratorWriteDiscard

text \<open>
  A lattice is named by a number. A \<open>LatticeView\<close> is the window \<open>l.View(mode)\<close>
  returns: it says which lattice it indexes and in which mode it was opened.
\<close>

record LatticeView =
  view_lattice :: nat
  view_mode :: ViewMode

datatype view_event = ViewOpen nat ViewMode | ViewClose nat ViewMode

datatype access = SiteRead nat nat | SiteWrite nat nat

text \<open>
  The state the functions of the file run on:
  \<^item> \<open>oSites l\<close>: what \<open>l.Grid()->oSites()\<close> returns for lattice \<open>l\<close>;
  \<^item> \<open>odata l i\<close>: the vector object at outer site \<open>i\<close> of lattice \<open>l\<close>;
  \<^item> \<open>heap\<close>: the \<open>ViewContainer\<close> objects made by \<open>new\<close>, by address; a deleted
    object leaves \<open>None\<close> and its address is not given out again;
  \<^item> \<open>view_log\<close>: the calls of \<open>View\<close> and \<open>ViewClose\<close>, in order;
  \<^item> \<open>accesses\<close>: the site reads and writes of the kernel actions, in order.
\<close>

record 'v world =
  oSites :: "nat \<Rightarrow> size_t"
  odata :: "nat \<Rightarrow> nat \<Rightarrow> 'v"
  heap :: "LatticeView option list"
  view_log :: "view_event list"
  accesses :: "access list"

definition View :: "nat \<Rightarrow> ViewMode \<Rightarrow> 'v world \<Rightarrow> LatticeView \<times> 'v world" where
  "View l mode w =
     (\<lparr>view_lattice = l, view_mode = mode\<rparr>,
      w\<lparr>view_log := view_log w @ [ViewOpen l mode]\<rparr>)"

definition new_ViewContainer :: "LatticeView \<Rightarrow> 'v world \<Rightarrow> nat \<times> 'v world" where
  "new_ViewContainer v w = (length (heap w), w\<lparr>heap := heap w @ [Some v]\<rparr>)"

text \<open>
  Modelled from the spec: \<open>ASSERT\<close> is a macro of \<open>lib.h\<close>; a condition that does not
  hold fails fatally, a condition that holds lets the function go on.
\<close>

definition ASSERT :: "bool \<Rightarrow> error + unit" where
  "ASSERT c = (if c then Inr () else Inl AssertFailed)"

text \<open>
  \<open>micro_kernel_arg_t::add\<close>: the site count is compared first, then the view is opened
  and its container appended.
\<close>

definition add ::
  "nat \<Rightarrow> ViewMode \<Rightarrow> micro_kernel_arg_t \<Rightarrow> 'v world
     \<Rightarrow> error + (micro_kernel_arg_t \<times> 'v world)" where
  "add l mode a w =
     (let o_sites' = oSites w l;
          checked =
            (if length (views a) = 0 then Inr (a\<lparr>o_sites := o_sites'\<rparr>)
             else case ASSERT (o_sites a = o_sites') of
                    Inl e \<Rightarrow> Inl e
                  | Inr _ \<Rightarrow> Inr a)
      in case checked of
           Inl e \<Rightarrow> Inl e
         | Inr a' \<Rightarrow>
             (let (l_v, w1) = View l mode w;
                  (p, w2) = new_ViewContainer l_v w1
              in Inr (a'\<lparr>views := views a' @ [p]\<rparr>, w2)))"

text \<open>
  \<open>delete x\<close> runs \<open>~ViewContainer\<close>, which calls \<open>v.ViewClose()\<close>, and frees the
  object. \<open>release\<close> deletes every element of \<open>views\<close> in order and leaves the vector
  as it is.
\<close>

definition delete_ViewContainer :: "nat \<Rightarrow> 'v world \<Rightarrow> error + 'v world" where
  "delete_ViewContainer x w =
     (if x < length (heap w) then
        (case heap w ! x of
           None \<Rightarrow> Inl DoubleDelete
         | Some v \<Rightarrow>
             Inr (w\<lparr>view_log := view_log w @ [ViewClose (view_lattice v) (view_mode v)],
                    heap := (heap w)[x := None]\<rparr>))
      else Inl InvalidPointer)"

fun delete_each :: "nat list \<Rightarrow> 'v world \<Rightarrow> error + 'v world" where
  "delete_each [] w = Inr w"
| "delete_each (x # xs) w =
     (case delete_ViewContainer x w of
        Inl e \<Rightarrow> Inl e
      | Inr w' \<Rightarrow> delete_each xs w')"

definition release :: "micro_kernel_arg_t \<Rightarrow> 'v world \<Rightarrow> error + 'v world" where
  "release a w = delete_each (views a) w"

section \<open>The kernel action \<open>mk_su3_mul\<close>\<close>

text \<open>
  \<open>((ViewContainer<...>*)arg.views[k])->v\<close>: the \<open>k\<close>-th pointer of the vector is
  followed to its container and the view copied out.
\<close>

definition view_at :: "micro_kernel_arg_t \<Rightarrow> nat \<Rightarrow> 'v world \<Rightarrow> error + LatticeView" where
  "view_at a k w =
     (if k < length (views a) then
        (let x = views a ! k
         in if x < length (heap w) then
              (case heap w ! x of
                 None \<Rightarrow> Inl UseAfterDelete
               | Some v \<Rightarrow> Inr v)
            else Inl InvalidPointer)
      else Inl ViewIndexOutOfRange)"

text \<open>
  The loop body \<open>a_p[idx] = b_p[idx] * c_p[idx]\<close> at site \<open>i = i0 + idx\<close>: the two
  operand sites are read, the product is written to the destination site. A site past
  the end of one of the three lattices is out of range.
\<close>

definition site_mul :: "nat \<Rightarrow> nat \<Rightarrow> nat \<Rightarrow> nat \<Rightarrow> ('v :: times) world \<Rightarrow> error + 'v world" where
  "site_mul a b c i w =
     (if i < unat (oSites w a) \<and> i < unat (oSites w b) \<and> i < unat (oSites w c) then
        Inr (w\<lparr>odata := (odata w)(a := (odata w a)(i := odata w b i * odata w c i)),
               accesses := accesses w @ [SiteRead b i, SiteRead c i, SiteWrite a i]\<rparr>)
      else Inl SiteOutOfRange)"

text \<open>
  Modelled from the spec: \<open>thread_for_in_region(idx, num, body)\<close> is a macro of the grid
  library; the action's range is divided among the threads of the team and every index
  \<open>0 \<le> idx < num\<close> is run once. The indices are run here in ascending order.
\<close>

function thread_for_in_region ::
  "(nat \<Rightarrow> 'w \<Rightarrow> error + 'w) \<Rightarrow> size_t \<Rightarrow> size_t \<Rightarrow> 'w \<Rightarrow> error + 'w" where
  "thread_for_in_region body num idx w =
     (if idx < num then
        (case body (unat idx) w of
           Inl e \<Rightarrow> Inl e
         | Inr w' \<Rightarrow> thread_for_in_region body num (idx + 1) w')
      else Inr w)"
  by pat_completeness auto
termination
proof (relation "measure (\<lambda>(body, num, idx, w). unat num - unat idx)")
  show "wf (measure (\<lambda>(body :: nat \<Rightarrow> 'w \<Rightarrow> error + 'w, num :: size_t, idx :: size_t, w :: 'w).
                    unat num - unat idx))"
    by simp
next
  fix body :: "nat \<Rightarrow> 'w \<Rightarrow> error + 'w" and num idx :: size_t and w x2 :: 'w
  assume "idx < num"
  then have lt: "unat idx < unat num"
    by (simp add: word_less_nat_alt)
  moreover have "unat num < 2 ^ LENGTH(64)"
    by (rule unsigned_less)
  ultimately have "unat idx + unat (1 :: size_t) < 2 ^ LENGTH(64)"
    by simp
  then have "unat (idx + 1) = unat idx + 1"
    by (simp add: unat_add_lem [THEN iffD1])
  with lt show "((body, num, idx + 1, x2), (body, num, idx, w))
      \<in> measure (\<lambda>(body, num, idx, w). unat num - unat idx)"
    by simp
qed

text \<open>
  \<open>mk_su3_mul\<close>: the three views are taken from \<open>arg.views[0]\<close>, \<open>[1]\<close>, \<open>[2]\<close>, the
  pointers \<open>a_p\<close>, \<open>b_p\<close>, \<open>c_p\<close> point at site \<open>i0\<close>, and the loop runs \<open>i1-i0\<close> times
  (a \<open>size_t\<close> subtraction).
\<close>

definition mk_su3_mul :: "('v :: times) world micro_kernel_action_t" where
  "mk_su3_mul a i0 i1 w =
     (case view_at a 0 w of
        Inl e \<Rightarrow> Inl e
      | Inr a_v \<Rightarrow>
     (case view_at a 1 w of
        Inl e \<Rightarrow> Inl e
      | Inr b_v \<Rightarrow>
     (case view_at a 2 w of
        Inl e \<Rightarrow> Inl e
      | Inr c_v \<Rightarrow>
          thread_for_in_region
            (\<lambda>idx. site_mul (view_lattice a_v) (view_lattice b_v) (view_lattice c_v)
                      (unat i0 + idx))
            (i1 - i0) 0 w)))"

section \<open>Predicates and example inputs of the statements\<close>

text \<open>
  A view set holds its handles: the pointers of \<open>views\<close> are distinct and each points at a
  container that has not been deleted. \<open>close_of w x\<close> is the \<open>ViewClose\<close> call that
  deleting the container at \<open>x\<close> makes.
\<close>

definition holds_handles :: "micro_kernel_arg_t \<Rightarrow> 'v world \<Rightarrow> bool" where
  "holds_handles a w \<longleftrightarrow>
     distinct (views a) \<and>
     list_all (\<lambda>x. x < length (heap w) \<and> heap w ! x \<noteq> None) (views a)"

definition close_of :: "'v world \<Rightarrow> nat \<Rightarrow> view_event" where
  "close_of w x =
     ViewClose (view_lattice (the (heap w ! x))) (view_mode (the (heap w ! x)))"

text \<open>The accesses of one run of the loop body of \<open>mk_su3_mul\<close> at site \<open>i\<close>.\<close>

definition site_accesses :: "nat \<Rightarrow> nat \<Rightarrow> nat \<Rightarrow> nat \<Rightarrow> access list" where
  "site_accesses a b c i = [SiteRead b i, SiteRead c i, SiteWrite a i]"

fun access_site :: "access \<Rightarrow> nat" where
  "access_site (SiteRead l i) = i"
| "access_site (SiteWrite l i) = i"

text \<open>
  Three lattices \<open>c = 0\<close>, \<open>a = 1\<close>, \<open>b = 2\<close> of \<open>n\<close> sites each, with \<open>a[i] = 2 + i\<close>,
  \<open>b[i] = 5 + 2 i\<close> and \<open>c\<close> zero, in the state \<open>micro_kernels\<close> builds with
  \<open>views_c_a_b.add(c, AcceleratorWriteDiscard)\<close>, \<open>.add(a, AcceleratorRead)\<close>,
  \<open>.add(b, AcceleratorRead)\<close>; and the view set these three calls build.
\<close>

definition no_views :: "size_t \<Rightarrow> int world" where
  "no_views n =
     \<lparr>oSites = (\<lambda>l. n),
      odata = (\<lambda>l i. if l = 1 then 2 + int i else if l = 2 then 5 + 2 * int i else 0),
      heap = [], view_log = [], accesses = []\<rparr>"

definition lattices_c_a_b :: "size_t \<Rightarrow> int world" where
  "lattices_c_a_b n =
     \<lparr>oSites = (\<lambda>l. n),
      odata = (\<lambda>l i. if l = 1 then 2 + int i else if l = 2 then 5 + 2 * int i else 0),
      heap = [Some \<lparr>view_lattice = 0, view_mode = AcceleratorWriteDiscard\<rparr>,
              Some \<lparr>view_lattice = 1, view_mode = AcceleratorRead\<rparr>,
              Some \<lparr>view_lattice = 2, view_mode = AcceleratorRead\<rparr>],
      view_log = [ViewOpen 0 AcceleratorWriteDiscard, ViewOpen 1 AcceleratorRead,
                  ViewOpen 2 AcceleratorRead],
      accesses = []\<rparr>"

definition views_c_a_b :: "size_t \<Rightarrow> micro_kernel_arg_t" where
  "views_c_a_b n = \<lparr>views = [0, 1, 2], o_sites = n\<rparr>"

text \<open>
  The same three lattices with the containers at other addresses than their position in
  the view set: the view set \<open>views = [1, 3, 0]\<close> holds, in this order, a view of \<open>c\<close>
  (container 1), of \<open>a\<close> (container 3) and of \<open>b\<close> (container 0); container 2 has
  been deleted.
\<close>

definition lattices_shuffled :: "size_t \<Rightarrow> int world" where
  "lattices_shuffled n =
     \<lparr>oSites = (\<lambda>l. n),
      odata = (\<lambda>l i. if l = 1 then 2 + int i else if l = 2 then 5 + 2 * int i else 0),
      heap = [Some \<lparr>view_lattice = 2, view_mode = AcceleratorRead\<rparr>,
              Some \<lparr>view_lattice = 0, view_mode = AcceleratorWriteDiscard\<rparr>,
              None,
              Some \<lparr>view_lattice = 1, view_mode = AcceleratorRead\<rparr>],
      view_log = [], accesses = []\<rparr>"

definition views_shuffled :: "size_t \<Rightarrow> micro_kernel_arg_t" where
  "views_shuffled n = \<lparr>views = [1, 3, 0], o_sites = n\<rparr>"

text \<open>
  Two lattices of different shape, no view open: lattice \<open>0\<close> has 7 outer sites, every
  other lattice 5.
\<close>

definition counts_7_5 :: "int world" where
  "counts_7_5 =
     \<lparr>oSites = (\<lambda>l. if l = 0 then 7 else 5), odata = (\<lambda>l i. 0),
      heap = [], view_log = [], accesses = []\<rparr>"

text \<open>
  The numerator of the loop bound does not wrap: \<open>o_sites + block_size - 1\<close> is below
  \<open>2 ^ 64\<close>.
\<close>

definition no_wrap :: "size_t \<Rightarrow> size_t \<Rightarrow> bool" where
  "no_wrap osites block_size \<longleftrightarrow> unat osites + unat block_size \<le> 2 ^ 64"

text \<open>
  The contract of a kernel action (specification, 4.3), for a kernel \<open>k\<close> on the states
  that have the views and lattice sizes of \<open>w0\<close>: called on a range \<open>i0 \<le> i1\<close> within
  the extent, the action returns, keeps views and sizes, and the new contents of the
  lattices at a site \<open>i\<close> of the range are a function \<open>f i\<close> of their old contents at
  that same site; sites outside the range keep their contents. \<open>chain fs i\<close> applies
  the site functions of a schedule one after the other.
\<close>

definition unchanged_views :: "'v world \<Rightarrow> 'v world \<Rightarrow> bool" where
  "unchanged_views w0 w \<longleftrightarrow> heap w = heap w0 \<and> oSites w = oSites w0"

definition on_range ::
  "nat \<Rightarrow> nat \<Rightarrow> (nat \<Rightarrow> (nat \<Rightarrow> 'v) \<Rightarrow> nat \<Rightarrow> 'v) \<Rightarrow> (nat \<Rightarrow> nat \<Rightarrow> 'v) \<Rightarrow> nat \<Rightarrow> nat \<Rightarrow> 'v" where
  "on_range lo hi f d = (\<lambda>l i. if lo \<le> i \<and> i < hi then f i (\<lambda>l'. d l' i) l else d l i)"

definition elementwise ::
  "'v world \<Rightarrow> size_t \<Rightarrow> 'v world micro_kernel_t \<Rightarrow> (nat \<Rightarrow> (nat \<Rightarrow> 'v) \<Rightarrow> nat \<Rightarrow> 'v) \<Rightarrow> bool" where
  "elementwise w0 extent k f \<longleftrightarrow>
     (\<forall>i0 i1 w. unchanged_views w0 w \<and> i0 \<le> i1 \<and> i1 \<le> extent \<longrightarrow>
        (\<exists>w'. action k (arg k) i0 i1 w = Inr w' \<and> unchanged_views w0 w'
              \<and> odata w' = on_range (unat i0) (unat i1) f (odata w)))"

fun chain ::
  "(nat \<Rightarrow> (nat \<Rightarrow> 'v) \<Rightarrow> nat \<Rightarrow> 'v) list \<Rightarrow> nat \<Rightarrow> (nat \<Rightarrow> 'v) \<Rightarrow> nat \<Rightarrow> 'v" where
  "chain [] i d = d"
| "chain (f # fs) i d = chain fs i (f i d)"

text \<open>
  The site function of \<open>mk_su3_mul\<close> on lattices \<open>a\<close>, \<open>b\<close>, \<open>c\<close>, and the micro-kernel
  \<open>{ mk_su3_mul, views_c_a_b }\<close> of \<open>micro_kernels\<close>.
\<close>

definition c_eq_a_times_b :: "size_t \<Rightarrow> int world micro_kernel_t" where
  "c_eq_a_times_b n = \<lparr>action = mk_su3_mul, arg = views_c_a_b n\<rparr>"

definition site_product :: "nat \<Rightarrow> nat \<Rightarrow> nat \<Rightarrow> nat \<Rightarrow> (nat \<Rightarrow> 'v :: times) \<Rightarrow> nat \<Rightarrow> 'v" where
  "site_product a b c i d = d(a := d b * d c)"

section \<open>Index arithmetic of the blocks\<close>

declare block_loop.simps [simp del]
declare thread_for_in_region.simps [simp del]

text \<open>
  The numerator \<open>o_sites + block_size - 1\<close> of the loop bound wraps around; it never
  exceeds the sum over the natural numbers.
\<close>

lemma unat_ceil_numerator:
  fixes osites block_size :: size_t
  assumes "block_size \<noteq> 0"
  shows "unat (osites + block_size - 1) = (unat osites + unat block_size - 1) mod 2 ^ 64"
proof -
  have pos: "0 < unat block_size"
    using assms by (simp add: unat_gt_0)
  have eq: "osites + block_size - 1 = osites + (block_size - 1)"
    by simp
  have m1: "unat (block_size - 1) = unat block_size - 1"
    using assms by (simp add: unat_minus_one)
  have "unat (osites + (block_size - 1)) = (unat osites + unat (block_size - 1)) mod 2 ^ LENGTH(64)"
    by (rule unat_word_ariths(1))
  then have "unat (osites + block_size - 1) = (unat osites + (unat block_size - 1)) mod 2 ^ 64"
    by (simp only: eq m1 len_bit0 len_num1) simp
  with pos show ?thesis by simp
qed

lemma unat_ceil_numerator_le:
  fixes osites block_size :: size_t
  assumes "block_size \<noteq> 0"
  shows "unat (osites + block_size - 1) \<le> unat osites + unat block_size - 1"
  using unat_ceil_numerator [OF assms, of osites] by (metis mod_less_eq_dividend)

lemma block_in_numerator:
  fixes osites block_size j :: size_t
  assumes B: "block_size \<noteq> 0" and j: "j < block_count osites block_size"
  shows "(unat j + 1) * unat block_size \<le> unat (osites + block_size - 1)"
proof -
  have "unat j < unat (osites + block_size - 1) div unat block_size"
    using j by (simp add: block_count_def word_less_nat_alt unat_div)
  then have "unat j + 1 \<le> unat (osites + block_size - 1) div unat block_size"
    by simp
  then have "(unat j + 1) * unat block_size \<le> (unat (osites + block_size - 1) div unat block_size) * unat block_size"
    by (rule mult_le_mono1)
  also have "\<dots> \<le> unat (osites + block_size - 1)"
    by simp
  finally show ?thesis .
qed

lemma unat_block_start:
  fixes osites block_size j :: size_t
  assumes B: "block_size \<noteq> 0" and j: "j < block_count osites block_size"
  shows "unat (j * block_size) = unat j * unat block_size"
    and "unat (j * block_size + block_size) = unat j * unat block_size + unat block_size"
    and "unat j * unat block_size < unat osites"
proof -
  let ?W = "unat (osites + block_size - 1)"
  have le: "(unat j + 1) * unat block_size \<le> ?W"
    by (rule block_in_numerator [OF B j])
  have W: "?W < 2 ^ LENGTH(64)" by (rule unsigned_less)
  have pos: "0 < unat block_size" using B by (simp add: unat_gt_0)
  have "unat j * unat block_size < 2 ^ LENGTH(64)"
    using le W by simp
  then show m: "unat (j * block_size) = unat j * unat block_size"
    by (simp add: unat_mult_lem [THEN iffD1])
  have "unat (j * block_size) + unat block_size < 2 ^ LENGTH(64)"
    using le W m by simp
  then show "unat (j * block_size + block_size) = unat j * unat block_size + unat block_size"
    using m by (simp add: unat_add_lem [THEN iffD1])
  have "?W \<le> unat osites + unat block_size - 1"
    by (rule unat_ceil_numerator_le [OF B])
  with le pos show "unat j * unat block_size < unat osites"
    by simp
qed

lemma block_j0_unat:
  fixes osites block_size j :: size_t
  assumes B: "block_size \<noteq> 0" and j: "j < block_count osites block_size"
  shows "unat (block_j0 osites block_size j) = unat j * unat block_size"
proof -
  have "j * block_size \<le> osites"
    using unat_block_start [OF B j] by (simp add: word_le_nat_alt)
  then show ?thesis
    using unat_block_start(1) [OF B j] by (simp add: block_j0_def min_def)
qed

lemma block_j1_unat:
  fixes osites block_size j :: size_t
  assumes B: "block_size \<noteq> 0" and j: "j < block_count osites block_size"
  shows "unat (block_j1 osites block_size j) = min (unat j * unat block_size + unat block_size) (unat osites)"
proof -
  have j0: "block_j0 osites block_size j = j * block_size"
    using unat_block_start [OF B j] by (simp add: block_j0_def min_def word_le_nat_alt)
  show ?thesis
    using unat_block_start(2) [OF B j]
    by (simp add: block_j1_def j0 min_def word_le_nat_alt)
qed

lemma blocks_nonempty:
  fixes osites block_size j :: size_t
  assumes B: "block_size \<noteq> 0" and j: "j < block_count osites block_size"
  shows "block_j0 osites block_size j < block_j1 osites block_size j"
proof -
  have "0 < unat block_size" using B by (simp add: unat_gt_0)
  then show ?thesis
    using unat_block_start(3) [OF B j]
    by (simp add: word_less_nat_alt block_j0_unat [OF B j] block_j1_unat [OF B j])
qed

section \<open>The executor as a list of calls\<close>

lemma unat_succ_below:
  fixes j n :: size_t
  assumes "j < n"
  shows "unat (j + 1) = unat j + 1"
proof -
  have "unat j < unat n"
    using assms by (simp add: word_less_nat_alt)
  moreover have "unat n < 2 ^ LENGTH(64)"
    by (rule unsigned_less)
  ultimately have "unat j + unat (1 :: size_t) < 2 ^ LENGTH(64)"
    by simp
  then show ?thesis
    by (simp add: unat_add_lem [THEN iffD1])
qed

lemma run_invocations_append:
  "run_invocations (xs @ ys) s =
     (case run_invocations xs s of Inl e \<Rightarrow> Inl e | Inr s' \<Rightarrow> run_invocations ys s')"
  by (induction xs s rule: run_invocations.induct) (auto split: sum.splits)

lemma kernel_loop_run:
  "kernel_loop ks osites block_size j s =
     run_invocations
       (map (\<lambda>k. (k, block_j0 osites block_size j, block_j1 osites block_size j)) ks) s"
  by (induction ks arbitrary: s) (auto simp: Let_def split: sum.splits)

lemma block_loop_zero: "block_loop ks osites 0 j s = Inl DivisionByZero"
  by (simp add: block_loop.simps)

lemma block_loop_run:
  assumes "block_size \<noteq> 0"
  shows "block_loop ks osites block_size j s =
     run_invocations
       (concat (map (\<lambda>j'. map (\<lambda>k. (k, block_j0 osites block_size j', block_j1 osites block_size j')) ks)
          (map of_nat [unat j ..< unat (block_count osites block_size)]))) s"
  using assms
proof (induction ks osites block_size j s rule: block_loop.induct)
  case (1 kernels osites block_size j s)
  let ?n = "block_count osites block_size"
  show ?case
  proof (cases "j < ?n")
    case False
    then have "unat ?n \<le> unat j"
      by (simp add: word_less_nat_alt)
    with False "1.prems" show ?thesis
      by (simp add: block_loop.simps)
  next
    case True
    then have lt: "unat j < unat ?n"
      by (simp add: word_less_nat_alt)
    have suc: "unat (j + 1) = Suc (unat j)"
      using unat_succ_below [OF True] by simp
    have upt: "[unat j ..< unat ?n] = unat j # [unat (j + 1) ..< unat ?n]"
      using lt suc by (simp add: upt_conv_Cons)
    show ?thesis
    proof (cases "kernel_loop kernels osites block_size j s")
      case (Inl e)
      then show ?thesis
        using True "1.prems"
        by (simp add: block_loop.simps [of kernels osites block_size j s] upt
            run_invocations_append kernel_loop_run)
    next
      case (Inr s')
      have IH: "block_loop kernels osites block_size (j + 1) s' =
        run_invocations
         (concat (map (\<lambda>j'. map (\<lambda>k. (k, block_j0 osites block_size j', block_j1 osites block_size j')) kernels)
            (map of_nat [unat (j + 1) ..< unat ?n]))) s'"
        using "1.IH" [OF "1.prems" True Inr "1.prems"] .
      show ?thesis
        using True "1.prems" Inr IH
        by (simp add: block_loop.simps [of kernels osites block_size j s] upt
            run_invocations_append kernel_loop_run [symmetric])
    qed
  qed
qed

lemma schedule_order_blocks:
  "schedule_order ks osites block_size =
     concat (map (\<lambda>j'. map (\<lambda>k. (k, block_j0 osites block_size j', block_j1 osites block_size j')) ks)
          (map of_nat [0 ..< unat (block_count osites block_size)]))"
  by (simp add: schedule_order_def blocks_def block_indices_def comp_def)

lemma eval_micro_kernels_run:
  assumes "block_size \<noteq> 0"
  shows "eval_micro_kernels (k # ks) block_size s =
     run_invocations (schedule_order (k # ks) (o_sites (arg k)) block_size) s"
  using block_loop_run [OF assms, of "k # ks" "o_sites (arg k)" 0 s]
  by (simp only: eval_micro_kernels_def schedule_order_blocks list.case unat_0)

lemma blocks_16_5: "blocks 16 5 = [(0, 5), (5, 10), (10, 15), (15, 16)]"
proof -
  have n: "unat (block_count 16 5) = 4"
    by (simp add: block_count_def)
  have "[0 ..< 4 :: nat] = [0, 1, 2, 3]"
    by code_simp
  then show ?thesis
    by (simp add: blocks_def block_indices_def n block_j0_def block_j1_def)
qed

lemma eval_micro_kernels_block_size_zero:
  "eval_micro_kernels (k # ks) 0 s = Inl DivisionByZero"
  by (simp add: eval_micro_kernels_def block_loop_zero)

section \<open>Order, extent and ranges of a pass\<close>

text \<open>
  C9. \<open>eval_micro_kernels\<close> reads \<open>kernels[0].arg.o_sites\<close> before any loop test: on the
  empty schedule the read is out of range, whatever the block size (also for block size
  \<open>0\<close>, where a non-empty schedule fails in the division), and the call has no result
  state; a non-empty schedule is a precondition of the call.
\<close>

theorem eval_micro_kernels_empty_schedule:
  "eval_micro_kernels [] block_size s = Inl KernelIndexOutOfRange"
  by (simp add: eval_micro_kernels_def)

theorem eval_micro_kernels_empty_schedule_witness:
  "eval_micro_kernels ([] :: nat micro_kernel_t list) 0 (7 :: nat) = Inl KernelIndexOutOfRange
   \<and> eval_micro_kernels ([] :: nat micro_kernel_t list) 5 (7 :: nat) \<noteq> Inr 7"
  using eval_micro_kernels_empty_schedule [of 0 "7 :: nat"]
    eval_micro_kernels_empty_schedule [of 5 "7 :: nat"]
  by simp

text \<open>
  C10. For every block size other than \<open>0\<close>, every block the loop generates is non-empty:
  \<open>j0 < j1\<close> for every \<open>j\<close> below the loop bound, so every call of a kernel action gets a
  non-empty range. With extent \<open>0\<close> the loop bound is \<open>0\<close> and the pass returns the state
  it was given without calling any action, whatever the actions are.
\<close>

theorem blocks_nonempty_zero_extent_no_calls:
  fixes ks :: "'s micro_kernel_t list"
  assumes "block_size \<noteq> 0"
  shows "(\<forall>j. j < block_count osites block_size \<longrightarrow>
            block_j0 osites block_size j < block_j1 osites block_size j)
       \<and> block_count 0 block_size = 0
       \<and> (o_sites (arg k) = 0 \<longrightarrow> eval_micro_kernels (k # ks) block_size s = Inr s)"
proof (intro conjI allI impI)
  fix j
  assume "j < block_count osites block_size"
  then show "block_j0 osites block_size j < block_j1 osites block_size j"
    by (rule blocks_nonempty [OF assms])
next
  have "unat (block_count 0 block_size) = 0"
    using assms by (simp add: block_count_def unat_div unat_minus_one unat_gt_0)
  then show zero: "block_count 0 block_size = 0"
    by (simp add: unat_0_iff)
  assume "o_sites (arg k) = 0"
  then show "eval_micro_kernels (k # ks) block_size s = Inr s"
    using assms zero by (simp add: eval_micro_kernels_def block_loop.simps)
qed

theorem blocks_nonempty_zero_extent_no_calls_witness:
  "(5 :: size_t) \<noteq> 0
   \<and> (3 :: size_t) < block_count 16 5
   \<and> block_j0 16 5 3 < block_j1 16 5 3
   \<and> eval_micro_kernels
        [\<lparr>action = (\<lambda>a i0 i1 (s :: nat). Inl AssertFailed),
          arg = \<lparr>views = [], o_sites = 0\<rparr>\<rparr>] 5 (7 :: nat) = Inr 7"
proof -
  have B: "(5 :: size_t) \<noteq> 0" by simp
  have j: "(3 :: size_t) < block_count 16 5"
    by (simp add: block_count_def)
  show ?thesis
    using B j
      blocks_nonempty_zero_extent_no_calls [OF B, of 16
        "\<lparr>action = (\<lambda>a i0 i1 (s :: nat). Inl AssertFailed),
          arg = \<lparr>views = [], o_sites = 0\<rparr>\<rparr>" "[]" "7 :: nat"]
    by simp
qed

text \<open>
  C4. A pass over a non-empty schedule \<open>k # ks\<close> with a block size other than \<open>0\<close> makes
  exactly the calls of \<open>schedule_order\<close>, in that order: block after block, and within a
  block every kernel of the schedule in schedule order before the next block starts.
  The extent of the whole pass is \<open>o_sites\<close> of the first kernel's argument block.
\<close>

theorem eval_micro_kernels_schedule_order:
  "eval_micro_kernels (k # ks) block_size s =
     (if block_size = 0 then Inl DivisionByZero
      else run_invocations (schedule_order (k # ks) (o_sites (arg k)) block_size) s)"
  by (simp add: eval_micro_kernels_block_size_zero eval_micro_kernels_run)

theorem eval_micro_kernels_schedule_order_witness:
  "eval_micro_kernels
     [\<lparr>action = (\<lambda>a i0 i1 s. Inr (s @ [(0 :: nat, i0, i1)])), arg = \<lparr>views = [], o_sites = 16\<rparr>\<rparr>,
      \<lparr>action = (\<lambda>a i0 i1 s. Inr (s @ [(1, i0, i1)])), arg = \<lparr>views = [], o_sites = 3\<rparr>\<rparr>]
     5 []
   = Inr [(0, 0, 5), (1, 0, 5), (0, 5, 10), (1, 5, 10),
          (0, 10, 15), (1, 10, 15), (0, 15, 16), (1, 15, 16)]"
  using eval_micro_kernels_schedule_order
    [of "\<lparr>action = (\<lambda>a i0 i1 s. Inr (s @ [(0 :: nat, i0, i1)])), arg = \<lparr>views = [], o_sites = 16\<rparr>\<rparr>"
        "[\<lparr>action = (\<lambda>a i0 i1 s. Inr (s @ [(1, i0, i1)])), arg = \<lparr>views = [], o_sites = 3\<rparr>\<rparr>]"
        5 "[]"]
  by (simp add: schedule_order_def blocks_16_5)

section \<open>View sets: \<open>add\<close> and \<open>release\<close>\<close>

lemma add_result:
  "add l mode a w =
     (if views a = [] \<or> o_sites a = oSites w l then
        Inr (a\<lparr>o_sites := oSites w l, views := views a @ [length (heap w)]\<rparr>,
             w\<lparr>view_log := view_log w @ [ViewOpen l mode],
               heap := heap w @ [Some \<lparr>view_lattice = l, view_mode = mode\<rparr>]\<rparr>)
      else Inl AssertFailed)"
  by (auto simp: add_def ASSERT_def View_def new_ViewContainer_def Let_def)

lemma add_holds_handles:
  assumes h: "holds_handles a w" and add: "add l mode a w = Inr (a', w')"
  shows "holds_handles a' w'"
proof -
  have d: "distinct (views a)"
    and live: "\<forall>x \<in> set (views a). x < length (heap w) \<and> heap w ! x \<noteq> None"
    using h by (auto simp: holds_handles_def list_all_iff)
  have a': "views a' = views a @ [length (heap w)]"
    and w': "heap w' = heap w @ [Some \<lparr>view_lattice = l, view_mode = mode\<rparr>]"
    using add by (auto simp: add_result split: if_splits)
  have fresh: "length (heap w) \<notin> set (views a)"
    using live by auto
  have "distinct (views a')"
    using d fresh a' by simp
  moreover have "\<forall>x \<in> set (views a'). x < length (heap w') \<and> heap w' ! x \<noteq> None"
  proof
    fix x
    assume "x \<in> set (views a')"
    then consider "x \<in> set (views a)" | "x = length (heap w)"
      using a' by auto
    then show "x < length (heap w') \<and> heap w' ! x \<noteq> None"
    proof cases
      case 1
      with live have "x < length (heap w)" "heap w ! x \<noteq> None"
        by auto
      then show ?thesis
        by (simp add: w' nth_append)
    next
      case 2
      then show ?thesis
        by (simp add: w')
    qed
  qed
  ultimately show ?thesis
    by (simp add: holds_handles_def list_all_iff)
qed

lemma delete_ViewContainer_live:
  assumes "x < length (heap w)" and "heap w ! x = Some v"
  shows "delete_ViewContainer x w =
     Inr (w\<lparr>view_log := view_log w @ [close_of w x], heap := (heap w)[x := None]\<rparr>)"
  using assms by (simp add: delete_ViewContainer_def close_of_def)

lemma delete_each_closes:
  assumes "distinct xs"
    and "\<forall>x \<in> set xs. x < length (heap w) \<and> heap w ! x \<noteq> None"
  shows "\<exists>w'. delete_each xs w = Inr w'
           \<and> view_log w' = view_log w @ map (close_of w) xs
           \<and> length (heap w') = length (heap w)
           \<and> (\<forall>x < length (heap w). heap w' ! x = (if x \<in> set xs then None else heap w ! x))
           \<and> odata w' = odata w \<and> accesses w' = accesses w \<and> oSites w' = oSites w"
  using assms
proof (induction xs arbitrary: w)
  case Nil
  then show ?case by simp
next
  case (Cons x xs)
  from Cons.prems obtain v where x: "x < length (heap w)" "heap w ! x = Some v"
    by auto
  let ?w1 = "w\<lparr>view_log := view_log w @ [close_of w x], heap := (heap w)[x := None]\<rparr>"
  have del: "delete_ViewContainer x w = Inr ?w1"
    by (rule delete_ViewContainer_live [OF x])
  have d: "distinct xs" and nx: "x \<notin> set xs"
    using Cons.prems by auto
  have live: "\<forall>y \<in> set xs. y < length (heap ?w1) \<and> heap ?w1 ! y \<noteq> None"
    using Cons.prems nx by (auto simp: nth_list_update)
  from Cons.IH [OF d live] obtain w' where w':
    "delete_each xs ?w1 = Inr w'"
    "view_log w' = view_log ?w1 @ map (close_of ?w1) xs"
    "length (heap w') = length (heap ?w1)"
    "\<forall>y < length (heap ?w1). heap w' ! y = (if y \<in> set xs then None else heap ?w1 ! y)"
    "odata w' = odata ?w1" "accesses w' = accesses ?w1" "oSites w' = oSites ?w1"
    by blast
  have "close_of ?w1 y = close_of w y" if "y \<in> set xs" for y
  proof -
    from that nx have "x \<noteq> y" by auto
    then show ?thesis
      by (simp add: close_of_def)
  qed
  then have same: "map (close_of ?w1) xs = map (close_of w) xs"
    by simp
  show ?case
    using del w' same x by (auto simp: nth_list_update)
qed

lemma views_c_a_b_built:
  "add 0 AcceleratorWriteDiscard \<lparr>views = [], o_sites = x\<rparr> (no_views n) = Inr (a1, w1)
   \<Longrightarrow> add 1 AcceleratorRead a1 w1 = Inr (a2, w2)
   \<Longrightarrow> add 2 AcceleratorRead a2 w2 = Inr (a3, w3)
   \<Longrightarrow> a3 = views_c_a_b n \<and> w3 = lattices_c_a_b n"
  by (auto simp: add_result no_views_def views_c_a_b_def lattices_c_a_b_def split: if_splits)

text \<open>
  C3. On the first call (the view set holds no handle yet) \<open>add\<close> does not fail and
  records the field's outer-site count as the extent. On every later call it fails, with
  the failed \<open>ASSERT\<close>, exactly when the field's outer-site count differs from the recorded
  extent. The check is made in \<open>add\<close> itself: a call that succeeds appends one handle,
  keeps the recorded extent, and leaves the field contents and the kernel actions' access
  log as they were, so no compute has run when the failure is raised.
\<close>

theorem add_records_then_checks_extent:
  "(views a = [] \<longrightarrow>
      (\<exists>a' w'. add l mode a w = Inr (a', w') \<and> o_sites a' = oSites w l))
   \<and> (views a \<noteq> [] \<longrightarrow>
        (add l mode a w = Inl AssertFailed \<longleftrightarrow> oSites w l \<noteq> o_sites a)
      \<and> (isl (add l mode a w) \<longleftrightarrow> oSites w l \<noteq> o_sites a))
   \<and> (\<forall>a' w'. add l mode a w = Inr (a', w') \<longrightarrow>
        views a' = views a @ [length (heap w)]
      \<and> (views a \<noteq> [] \<longrightarrow> o_sites a' = o_sites a)
      \<and> odata w' = odata w \<and> accesses w' = accesses w)"
  by (auto simp: add_result)

theorem add_records_then_checks_extent_witness:
  "views \<lparr>views = [], o_sites = 0\<rparr> = []
   \<and> map_sum id (\<lambda>(a', w'). (views a', o_sites a', view_log w'))
        (add 0 AcceleratorWriteDiscard \<lparr>views = [], o_sites = 0\<rparr> counts_7_5)
      = Inr ([0], 7, [ViewOpen 0 AcceleratorWriteDiscard])
   \<and> views \<lparr>views = [0], o_sites = 7\<rparr> \<noteq> []
   \<and> oSites (counts_7_5\<lparr>heap := [Some \<lparr>view_lattice = 0, view_mode = AcceleratorWriteDiscard\<rparr>]\<rparr>) 1 = 5
   \<and> add 1 AcceleratorRead \<lparr>views = [0], o_sites = 7\<rparr>
        (counts_7_5\<lparr>heap := [Some \<lparr>view_lattice = 0, view_mode = AcceleratorWriteDiscard\<rparr>]\<rparr>)
      = Inl AssertFailed"
proof -
  define a0 where "a0 = \<lparr>views = [], o_sites = 0\<rparr>"
  define a1 where "a1 = \<lparr>views = [0], o_sites = 7\<rparr>"
  define w1 where
    "w1 = counts_7_5\<lparr>heap := [Some \<lparr>view_lattice = 0, view_mode = AcceleratorWriteDiscard\<rparr>]\<rparr>"
  have e0: "views a0 = []"
    by (simp add: a0_def)
  have first: "add 0 AcceleratorWriteDiscard a0 counts_7_5 =
      Inr (a0\<lparr>o_sites := 7, views := [0]\<rparr>,
           counts_7_5\<lparr>view_log := [ViewOpen 0 AcceleratorWriteDiscard],
             heap := [Some \<lparr>view_lattice = 0, view_mode = AcceleratorWriteDiscard\<rparr>]\<rparr>)"
    by (simp add: add_result a0_def counts_7_5_def)
  have e1: "views a1 \<noteq> []"
    by (simp add: a1_def)
  have c1: "oSites w1 1 = 5" and d1: "oSites w1 1 \<noteq> o_sites a1"
    by (simp_all add: w1_def a1_def counts_7_5_def)
  have "add 1 AcceleratorRead a1 w1 = Inl AssertFailed"
    using add_records_then_checks_extent [of a1 1 AcceleratorRead w1] e1 d1
    by blast
  then show ?thesis
    using e0 e1 c1 first unfolding a0_def a1_def w1_def
    by simp
qed

text \<open>
  C6. For a view set that holds \<open>k\<close> handles, \<open>release\<close> succeeds and makes exactly \<open>k\<close>
  \<open>ViewClose\<close> calls: the calls it adds to the log are the closes of the handles, one per
  handle in the order of \<open>views\<close>, and afterwards every one of the containers is deleted.
\<close>

theorem release_closes_each_handle_once:
  assumes "holds_handles a w"
  shows "\<exists>w'. release a w = Inr w'
           \<and> view_log w' = view_log w @ map (close_of w) (views a)
           \<and> length (view_log w') = length (view_log w) + length (views a)
           \<and> (\<forall>x \<in> set (views a). x < length (heap w') \<and> heap w' ! x = None)"
proof -
  have d: "distinct (views a)"
    and live: "\<forall>x \<in> set (views a). x < length (heap w) \<and> heap w ! x \<noteq> None"
    using assms by (auto simp: holds_handles_def list_all_iff)
  from delete_each_closes [OF d live] obtain w' where
    "delete_each (views a) w = Inr w'"
    "view_log w' = view_log w @ map (close_of w) (views a)"
    "length (heap w') = length (heap w)"
    "\<forall>x < length (heap w). heap w' ! x = (if x \<in> set (views a) then None else heap w ! x)"
    by blast
  then show ?thesis
    using live by (auto simp: release_def)
qed

theorem release_closes_each_handle_once_witness:
  "holds_handles (views_c_a_b 7) (lattices_c_a_b 7)
   \<and> map_sum id view_log (release (views_c_a_b 7) (lattices_c_a_b 7))
     = Inr [ViewOpen 0 AcceleratorWriteDiscard, ViewOpen 1 AcceleratorRead,
            ViewOpen 2 AcceleratorRead,
            ViewClose 0 AcceleratorWriteDiscard, ViewClose 1 AcceleratorRead,
            ViewClose 2 AcceleratorRead]
   \<and> map_sum id heap (release (views_c_a_b 7) (lattices_c_a_b 7)) = Inr [None, None, None]"
proof -
  have h: "holds_handles (views_c_a_b 7) (lattices_c_a_b 7)"
    by (simp add: holds_handles_def views_c_a_b_def lattices_c_a_b_def)
  from release_closes_each_handle_once [OF h] obtain w' where
    r: "release (views_c_a_b 7) (lattices_c_a_b 7) = Inr w'"
    and log: "view_log w' = view_log (lattices_c_a_b 7)
                @ map (close_of (lattices_c_a_b 7)) (views (views_c_a_b 7))"
    by blast
  have heap: "heap w' = [None, None, None]"
    using r
    by (auto simp: release_def delete_ViewContainer_def views_c_a_b_def lattices_c_a_b_def)
  show ?thesis
    using h r log heap
    by (simp add: close_of_def views_c_a_b_def lattices_c_a_b_def)
qed

section \<open>The kernel action \<open>mk_su3_mul\<close> on a range\<close>

lemma thread_for_site_mul:
  fixes w :: "('v :: times) world"
  assumes "body = (\<lambda>k. site_mul a b c (lo + k))"
    and "idx \<le> num"
    and "lo + unat num \<le> unat (oSites w a)"
    and "lo + unat num \<le> unat (oSites w b)"
    and "lo + unat num \<le> unat (oSites w c)"
  shows "\<exists>w'. thread_for_in_region body num idx w = Inr w'
     \<and> odata w' = (\<lambda>l i. if l = a \<and> lo + unat idx \<le> i \<and> i < lo + unat num
                          then odata w b i * odata w c i else odata w l i)
     \<and> accesses w' = accesses w @
          concat (map (site_accesses a b c) [lo + unat idx ..< lo + unat num])
     \<and> oSites w' = oSites w \<and> heap w' = heap w \<and> view_log w' = view_log w"
  using assms
proof (induction body num idx w rule: thread_for_in_region.induct)
  case (1 body num idx w)
  show ?case
  proof (cases "idx < num")
    case False
    with "1.prems"(2) have "idx = num" by simp
    then show ?thesis
      by (auto simp: thread_for_in_region.simps [of body num num w] fun_eq_iff)
  next
    case True
    then have lt: "unat idx < unat num"
      by (simp add: word_less_nat_alt)
    have suc: "unat (idx + 1) = unat idx + 1"
      by (rule unat_succ_below [OF True])
    have le: "idx + 1 \<le> num"
      using lt suc by (simp add: word_le_nat_alt)
    let ?i = "lo + unat idx"
    let ?w1 = "w\<lparr>odata := (odata w)(a := (odata w a)(?i := odata w b ?i * odata w c ?i)),
                 accesses := accesses w @ site_accesses a b c ?i\<rparr>"
    have step: "body (unat idx) w = Inr ?w1"
      using lt "1.prems" by (simp add: site_mul_def site_accesses_def)
    have "\<exists>w'. thread_for_in_region body num (idx + 1) ?w1 = Inr w'
       \<and> odata w' = (\<lambda>l i. if l = a \<and> lo + unat (idx + 1) \<le> i \<and> i < lo + unat num
                          then odata ?w1 b i * odata ?w1 c i else odata ?w1 l i)
       \<and> accesses w' = accesses ?w1 @
            concat (map (site_accesses a b c) [lo + unat (idx + 1) ..< lo + unat num])
       \<and> oSites w' = oSites ?w1 \<and> heap w' = heap ?w1 \<and> view_log w' = view_log ?w1"
      using "1.prems" le by (intro "1.IH" [OF True step]) simp_all
    then obtain w' where w':
      "thread_for_in_region body num (idx + 1) ?w1 = Inr w'"
      "odata w' = (\<lambda>l i. if l = a \<and> lo + unat (idx + 1) \<le> i \<and> i < lo + unat num
                          then odata ?w1 b i * odata ?w1 c i else odata ?w1 l i)"
      "accesses w' = accesses ?w1 @
            concat (map (site_accesses a b c) [lo + unat (idx + 1) ..< lo + unat num])"
      "oSites w' = oSites ?w1" "heap w' = heap ?w1" "view_log w' = view_log ?w1"
      by blast
    have run: "thread_for_in_region body num idx w = Inr w'"
      using True step w'(1) by (simp add: thread_for_in_region.simps [of body num idx w])
    have data: "odata w' = (\<lambda>l i. if l = a \<and> lo + unat idx \<le> i \<and> i < lo + unat num
                          then odata w b i * odata w c i else odata w l i)"
      unfolding w'(2) suc using lt by (auto simp: fun_eq_iff)
    have upt: "[lo + unat idx ..< lo + unat num] = ?i # [lo + unat (idx + 1) ..< lo + unat num]"
      using lt suc by (simp add: upt_conv_Cons)
    have acc: "accesses w' = accesses w @
          concat (map (site_accesses a b c) [lo + unat idx ..< lo + unat num])"
      unfolding w'(3) upt by simp
    show ?thesis
      using run data acc w'(4-6) by simp
  qed
qed

lemma view_at_handle:
  assumes "k < length (views a)"
    and "views a ! k < length (heap w)"
    and "heap w ! (views a ! k) = Some v"
  shows "view_at a k w = Inr v"
  using assms by (simp add: view_at_def)

text \<open>
  C7. Given a view set whose handles \<open>views arg0\<close> are, in this order, pointers to live
  containers of a view \<open>dest\<close>, a view \<open>left\<close> and a view \<open>right\<close>, and a range
  \<open>i0 \<le> i1\<close> within the three lattices viewed, \<open>mk_su3_mul\<close> returns, and afterwards
  \<open>dest[i] = left[i] * right[i]\<close> (the operands as they were before the call) for every
  \<open>i\<close> in \<open>[i0, i1)\<close>; every other site of every lattice is as before; and the sites it
  read or wrote are those of \<open>[i0, i1)\<close>, each operand site read once and each
  destination site written once.
\<close>

theorem mk_su3_mul_within_range:
  fixes w :: "('v :: times) world"
  assumes handles: "views arg0 = x0 # x1 # x2 # rest"
    and dest: "x0 < length (heap w)" "heap w ! x0 = Some dest"
    and left: "x1 < length (heap w)" "heap w ! x1 = Some left"
    and right: "x2 < length (heap w)" "heap w ! x2 = Some right"
    and range: "i0 \<le> i1"
    and within: "i1 \<le> oSites w (view_lattice dest)"
      "i1 \<le> oSites w (view_lattice left)"
      "i1 \<le> oSites w (view_lattice right)"
  shows "\<exists>w'. mk_su3_mul arg0 i0 i1 w = Inr w'
     \<and> (\<forall>i. unat i0 \<le> i \<and> i < unat i1 \<longrightarrow>
           odata w' (view_lattice dest) i =
             odata w (view_lattice left) i * odata w (view_lattice right) i)
     \<and> (\<forall>l i. \<not> (l = view_lattice dest \<and> unat i0 \<le> i \<and> i < unat i1) \<longrightarrow>
           odata w' l i = odata w l i)
     \<and> accesses w' = accesses w @
          concat (map (site_accesses (view_lattice dest) (view_lattice left) (view_lattice right))
            [unat i0 ..< unat i1])
     \<and> (\<forall>x \<in> set (drop (length (accesses w)) (accesses w')).
           unat i0 \<le> access_site x \<and> access_site x < unat i1)"
proof -
  let ?a = "view_lattice dest" and ?b = "view_lattice left" and ?c = "view_lattice right"
  have v0: "view_at arg0 0 w = Inr dest"
    using handles dest by (intro view_at_handle) simp_all
  have v1: "view_at arg0 1 w = Inr left"
    using handles left by (intro view_at_handle) simp_all
  have v2: "view_at arg0 2 w = Inr right"
    using handles right by (intro view_at_handle) simp_all
  have num: "unat (i1 - i0) = unat i1 - unat i0"
    using range by (simp add: unat_sub)
  have le: "unat i0 \<le> unat i1"
    using range by (simp add: word_le_nat_alt)
  have hi: "unat i0 + unat (i1 - i0) = unat i1"
    using num le by simp
  have bounds: "unat i0 + unat (i1 - i0) \<le> unat (oSites w ?a)"
    "unat i0 + unat (i1 - i0) \<le> unat (oSites w ?b)"
    "unat i0 + unat (i1 - i0) \<le> unat (oSites w ?c)"
    using within by (simp_all add: hi word_le_nat_alt)
  from thread_for_site_mul [OF refl _ bounds, of 0]
  obtain w' where w':
    "thread_for_in_region (\<lambda>k. site_mul ?a ?b ?c (unat i0 + k)) (i1 - i0) 0 w = Inr w'"
    "odata w' = (\<lambda>l i. if l = ?a \<and> unat i0 + unat (0 :: size_t) \<le> i \<and> i < unat i0 + unat (i1 - i0)
                          then odata w ?b i * odata w ?c i else odata w l i)"
    "accesses w' = accesses w @
          concat (map (site_accesses ?a ?b ?c) [unat i0 + unat (0 :: size_t) ..< unat i0 + unat (i1 - i0)])"
    by auto
  have run: "mk_su3_mul arg0 i0 i1 w = Inr w'"
    using v0 v1 v2 w'(1) by (simp add: mk_su3_mul_def)
  have acc: "accesses w' = accesses w @
          concat (map (site_accesses ?a ?b ?c) [unat i0 ..< unat i1])"
    using w'(3) by (simp add: hi)
  have "\<forall>x \<in> set (drop (length (accesses w)) (accesses w')).
           unat i0 \<le> access_site x \<and> access_site x < unat i1"
    unfolding acc by (auto simp: site_accesses_def)
  then show ?thesis
    using run w'(2) acc by (simp add: hi)
qed

theorem mk_su3_mul_within_range_witness:
  "views (views_shuffled 7) = [1, 3, 0]
   \<and> heap (lattices_shuffled 7) ! 1 = Some \<lparr>view_lattice = 0, view_mode = AcceleratorWriteDiscard\<rparr>
   \<and> heap (lattices_shuffled 7) ! 3 = Some \<lparr>view_lattice = 1, view_mode = AcceleratorRead\<rparr>
   \<and> heap (lattices_shuffled 7) ! 0 = Some \<lparr>view_lattice = 2, view_mode = AcceleratorRead\<rparr>
   \<and> length (heap (lattices_shuffled 7)) = 4
   \<and> (2 :: size_t) \<le> 4
   \<and> (4 :: size_t) \<le> oSites (lattices_shuffled 7) 0
   \<and> map_sum id (\<lambda>w'. (odata w' 0 1, odata w' 0 2, odata w' 0 3, odata w' 0 4,
                          odata w' 1 2, odata w' 2 2, accesses w'))
        (mk_su3_mul (views_shuffled 7) 2 4 (lattices_shuffled 7))
     = Inr (0, 36, 55, 0, 4, 9,
            [SiteRead 1 2, SiteRead 2 2, SiteWrite 0 2,
             SiteRead 1 3, SiteRead 2 3, SiteWrite 0 3])"
proof -
  let ?w = "lattices_shuffled 7"
  have vs: "views (views_shuffled 7) = 1 # 3 # 0 # []"
    by (simp add: views_shuffled_def)
  have len: "length (heap ?w) = 4"
    by (simp add: lattices_shuffled_def)
  have h1: "heap ?w ! 1 = Some \<lparr>view_lattice = 0, view_mode = AcceleratorWriteDiscard\<rparr>"
    and h3: "heap ?w ! 3 = Some \<lparr>view_lattice = 1, view_mode = AcceleratorRead\<rparr>"
    and h0: "heap ?w ! 0 = Some \<lparr>view_lattice = 2, view_mode = AcceleratorRead\<rparr>"
    by (simp_all add: lattices_shuffled_def)
  have l1: "1 < length (heap ?w)" and l3: "3 < length (heap ?w)" and l0: "0 < length (heap ?w)"
    by (simp_all add: len)
  have r: "(2 :: size_t) \<le> 4" by simp
  have b: "(4 :: size_t) \<le> oSites ?w 0" "(4 :: size_t) \<le> oSites ?w 1"
    "(4 :: size_t) \<le> oSites ?w 2"
    by (simp_all add: lattices_shuffled_def)
  have upt: "[2 ..< 4 :: nat] = [2, 3]"
    by code_simp
  from mk_su3_mul_within_range [OF vs l1 h1 l3 h3 l0 h0 r] b
  obtain w' where w': "mk_su3_mul (views_shuffled 7) 2 4 ?w = Inr w'"
    and inside: "\<forall>i. 2 \<le> i \<and> i < 4 \<longrightarrow> odata w' 0 i = odata ?w 1 i * odata ?w 2 i"
    and outside: "\<forall>l i. \<not> (l = 0 \<and> 2 \<le> i \<and> i < 4) \<longrightarrow> odata w' l i = odata ?w l i"
    and acc: "accesses w' = accesses ?w @ concat (map (site_accesses 0 1 2) [2 ..< 4])"
    by auto
  have "odata w' 0 2 = 36" "odata w' 0 3 = 55"
    using inside by (simp_all add: lattices_shuffled_def)
  moreover have "odata w' 0 1 = 0" "odata w' 0 4 = 0" "odata w' 1 2 = 4" "odata w' 2 2 = 9"
    using outside by (simp_all add: lattices_shuffled_def)
  moreover have "accesses w' = [SiteRead 1 2, SiteRead 2 2, SiteWrite 0 2,
             SiteRead 1 3, SiteRead 2 3, SiteWrite 0 3]"
    using acc by (simp add: upt site_accesses_def lattices_shuffled_def)
  ultimately show ?thesis
    using vs len h1 h3 h0 r b w' by simp
qed

section \<open>The blocks as a partition of the extent\<close>

text \<open>
  Where the numerator does not wrap, the loop bound is \<open>ceil(extent / block_size)\<close> and
  the blocks cover the extent. That later blocks start where earlier ones end
  (\<open>blocks_ascending\<close>) needs no such condition.
\<close>

lemma block_count_ceil_div:
  assumes B: "block_size \<noteq> 0" and fits: "no_wrap osites block_size"
  shows "unat (block_count osites block_size) = ceil_div (unat osites) (unat block_size)"
proof -
  have pos: "0 < unat block_size"
    using B by (simp add: unat_gt_0)
  have "unat osites + unat block_size - 1 < 2 ^ 64"
    using fits pos by (simp add: no_wrap_def)
  then have "unat (osites + block_size - 1) = unat osites + unat block_size - 1"
    using unat_ceil_numerator [OF B, of osites] by simp
  then show ?thesis
    by (simp add: block_count_def ceil_div_def unat_div)
qed

lemma ceil_div_covers:
  assumes "0 < b"
  shows "n \<le> ceil_div n b * b"
proof -
  have "n + b - 1 = (n + b - 1) div b * b + (n + b - 1) mod b"
    by simp
  moreover have "(n + b - 1) mod b < b"
    using assms by simp
  ultimately have "n + b - 1 < (n + b - 1) div b * b + b"
    by linarith
  then show ?thesis
    using assms by (simp add: ceil_div_def)
qed

lemma block_count_covers:
  assumes B: "block_size \<noteq> 0" and fits: "no_wrap osites block_size"
  shows "unat osites \<le> unat (block_count osites block_size) * unat block_size"
  using ceil_div_covers [of "unat block_size" "unat osites"] B
  by (simp add: block_count_ceil_div [OF B fits] unat_gt_0)

lemma set_block_indices:
  "set (block_indices osites block_size) = {j. j < block_count osites block_size}"
proof -
  let ?n = "block_count osites block_size"
  have "(of_nat k :: size_t) < ?n" if "k < unat ?n" for k
  proof -
    have "k < 2 ^ LENGTH(64)"
      using that unsigned_less [of ?n] by (meson less_trans)
    moreover have "unat (of_nat k :: size_t) = k mod 2 ^ LENGTH(64)"
      by (rule unat_of_nat)
    ultimately have "unat (of_nat k :: size_t) = k"
      by (simp only: mod_less)
    with that show ?thesis
      by (simp add: word_less_nat_alt)
  qed
  moreover have "j \<in> of_nat ` {0 ..< unat ?n}" if "j < ?n" for j
  proof -
    have "unat j \<in> {0 ..< unat ?n}"
      using that by (simp add: word_less_nat_alt)
    moreover have "j = of_nat (unat j)"
      by simp
    ultimately show ?thesis
      by (rule rev_image_eqI)
  qed
  ultimately show ?thesis
    by (auto simp: block_indices_def)
qed

lemma length_blocks:
  "length (blocks osites block_size) = unat (block_count osites block_size)"
  by (simp add: blocks_def block_indices_def)

lemma blocks_ascending:
  assumes B: "block_size \<noteq> 0" and lt: "j < j'" and j': "j' < block_count osites block_size"
  shows "block_j1 osites block_size j \<le> block_j0 osites block_size j'"
proof -
  have j: "j < block_count osites block_size"
    using lt j' by simp
  have "unat j + 1 \<le> unat j'"
    using lt by (simp add: word_less_nat_alt)
  then have "(unat j + 1) * unat block_size \<le> unat j' * unat block_size"
    by (rule mult_le_mono1)
  then have "unat j * unat block_size + unat block_size \<le> unat j' * unat block_size"
    by simp
  then show ?thesis
    by (simp add: word_le_nat_alt block_j1_unat [OF B j] block_j0_unat [OF B j'])
qed

lemma blocks_within_extent:
  "block_j1 osites block_size j \<le> osites"
  by (simp add: block_j1_def)

lemma blocks_exhaustive:
  assumes B: "block_size \<noteq> 0" and fits: "no_wrap osites block_size" and i: "i < osites"
  shows "\<exists>j. j < block_count osites block_size
           \<and> block_j0 osites block_size j \<le> i \<and> i < block_j1 osites block_size j"
proof -
  let ?n = "block_count osites block_size"
  let ?j = "i div block_size"
  have pos: "0 < unat block_size"
    using B by (simp add: unat_gt_0)
  have uj: "unat ?j = unat i div unat block_size"
    by (simp add: unat_div)
  have ui: "unat i < unat osites"
    using i by (simp add: word_less_nat_alt)
  have "unat i < unat ?n * unat block_size"
    using ui block_count_covers [OF B fits] by simp
  then have "unat i div unat block_size < unat ?n"
    using pos by (simp add: less_mult_imp_div_less)
  then have j: "?j < ?n"
    by (simp add: word_less_nat_alt uj)
  have lo: "unat ?j * unat block_size \<le> unat i"
    by (simp add: uj)
  have "unat i < unat ?j * unat block_size + unat block_size"
    using pos unfolding uj
    by (metis add.commute dividend_less_div_times)
  with ui have hi: "unat i < min (unat ?j * unat block_size + unat block_size) (unat osites)"
    by simp
  have "block_j0 osites block_size ?j \<le> i \<and> i < block_j1 osites block_size ?j"
    using lo hi
    by (simp add: word_le_nat_alt word_less_nat_alt block_j0_unat [OF B j] block_j1_unat [OF B j])
  with j show ?thesis
    by blast
qed

lemma blocks_partition:
  assumes B: "block_size \<noteq> 0" and fits: "no_wrap osites block_size"
  shows "(\<Union>(i0, i1) \<in> set (blocks osites block_size). {i0 ..< i1}) = {i. i < osites}"
proof (intro set_eqI iffI)
  fix i
  assume "i \<in> (\<Union>(i0, i1) \<in> set (blocks osites block_size). {i0 ..< i1})"
  then obtain j where "j < block_count osites block_size"
    "block_j0 osites block_size j \<le> i" "i < block_j1 osites block_size j"
    by (auto simp: blocks_def set_block_indices)
  then have "i < osites"
    using blocks_within_extent [of osites block_size j] by simp
  then show "i \<in> {i. i < osites}"
    by simp
next
  fix i
  assume "i \<in> {i. i < osites}"
  then have "i < osites" by simp
  from blocks_exhaustive [OF B fits this]
  show "i \<in> (\<Union>(i0, i1) \<in> set (blocks osites block_size). {i0 ..< i1})"
    by (auto simp: blocks_def set_block_indices)
qed

section \<open>Tiled and untiled execution of elementwise kernels\<close>

text \<open>
  A pass over elementwise kernels applies the chain of their site functions to every
  site below \<open>min (block_count * block_size) extent\<close>
  (\<open>eval_micro_kernels_elementwise\<close>); the untiled baseline applies it to every site
  below the extent. Where the numerator does not wrap the two agree
  (\<open>tiled_equals_untiled\<close>), and so do any two such block sizes
  (\<open>block_size_invariance\<close>). The actions are run one after the other, as the
  accelerator queue runs them; the threads of the host backend are not modelled.
\<close>

lemma on_range_chain_step:
  "on_range lo hi (chain fs) (on_range lo hi f d) = on_range lo hi (chain (f # fs)) d"
  by (auto simp: on_range_def fun_eq_iff)

lemma on_range_empty: "hi \<le> lo \<Longrightarrow> on_range lo hi f d = d"
  by (auto simp: on_range_def fun_eq_iff)

lemma run_same_range:
  assumes "list_all2 (elementwise w0 extent) ks fs"
    and "unchanged_views w0 w" and "i0 \<le> i1" and "i1 \<le> extent"
  shows "\<exists>w'. run_invocations (map (\<lambda>k. (k, i0, i1)) ks) w = Inr w'
           \<and> unchanged_views w0 w'
           \<and> odata w' = on_range (unat i0) (unat i1) (chain fs) (odata w)"
  using assms
proof (induction ks fs arbitrary: w rule: list_all2_induct)
  case Nil
  then show ?case
    by (auto simp: on_range_def fun_eq_iff)
next
  case (Cons k ks f fs)
  from Cons.hyps(1) Cons.prems obtain w1 where w1:
    "action k (arg k) i0 i1 w = Inr w1" "unchanged_views w0 w1"
    "odata w1 = on_range (unat i0) (unat i1) f (odata w)"
    unfolding elementwise_def by blast
  from Cons.IH [OF w1(2) Cons.prems(2,3)] obtain w' where w':
    "run_invocations (map (\<lambda>k. (k, i0, i1)) ks) w1 = Inr w'" "unchanged_views w0 w'"
    "odata w' = on_range (unat i0) (unat i1) (chain fs) (odata w1)"
    by blast
  have "odata w' = on_range (unat i0) (unat i1) (chain (f # fs)) (odata w)"
    unfolding w'(3) w1(3) by (rule on_range_chain_step)
  then show ?case
    using w1(1) w'(1,2) by (simp del: chain.simps)
qed

lemma untiled_baseline_run:
  "untiled_baseline ks extent s = run_invocations (map (\<lambda>k. (k, 0, extent)) ks) s"
  by (induction ks arbitrary: s) (auto split: sum.splits)

lemma untiled_baseline_elementwise:
  assumes "list_all2 (elementwise w0 extent) ks fs" and "unchanged_views w0 w"
  shows "\<exists>w'. untiled_baseline ks extent w = Inr w'
           \<and> odata w' = on_range 0 (unat extent) (chain fs) (odata w)"
  using run_same_range [OF assms, of 0 extent]
  by (auto simp: untiled_baseline_run)

lemma block_loop_elementwise:
  assumes "block_size \<noteq> 0"
    and "list_all2 (elementwise w0 osites) ks fs"
    and "unchanged_views w0 w"
    and "j \<le> block_count osites block_size"
  shows "\<exists>w'. block_loop ks osites block_size j w = Inr w'
           \<and> unchanged_views w0 w'
           \<and> odata w' =
               on_range (unat j * unat block_size)
                 (min (unat (block_count osites block_size) * unat block_size) (unat osites))
                 (chain fs) (odata w)"
  using assms
proof (induction ks osites block_size j w rule: block_loop.induct)
  case (1 kernels osites block_size j w)
  let ?n = "block_count osites block_size"
  let ?B = "unat block_size"
  let ?top = "min (unat ?n * ?B) (unat osites)"
  note B = "1.prems"(1)
  show ?case
  proof (cases "j < ?n")
    case False
    with "1.prems"(4) have "j = ?n" by simp
    then have "block_loop kernels osites block_size j w = Inr w"
      using B by (simp add: block_loop.simps)
    moreover have "on_range (unat j * ?B) ?top (chain fs) (odata w) = odata w"
      using \<open>j = ?n\<close> by (simp add: on_range_empty)
    ultimately show ?thesis
      using "1.prems"(3) by simp
  next
    case True
    let ?j0 = "block_j0 osites block_size j" and ?j1 = "block_j1 osites block_size j"
    have u0: "unat ?j0 = unat j * ?B"
      by (rule block_j0_unat [OF B True])
    have u1: "unat ?j1 = min (unat j * ?B + ?B) (unat osites)"
      by (rule block_j1_unat [OF B True])
    have lt: "unat j < unat ?n"
      using True by (simp add: word_less_nat_alt)
    have suc: "unat (j + 1) = unat j + 1"
      by (rule unat_succ_below [OF True])
    have le: "j + 1 \<le> ?n"
      using lt suc by (simp add: word_le_nat_alt)
    have range: "?j0 \<le> ?j1" "?j1 \<le> osites"
      using blocks_nonempty [OF B True] by (simp_all add: blocks_within_extent)
    from run_same_range [OF "1.prems"(2,3) range] obtain w1 where w1:
      "kernel_loop kernels osites block_size j w = Inr w1" "unchanged_views w0 w1"
      "odata w1 = on_range (unat ?j0) (unat ?j1) (chain fs) (odata w)"
      by (auto simp: kernel_loop_run)
    from "1.IH" [OF B True w1(1) B "1.prems"(2) w1(2) le] obtain w' where w':
      "block_loop kernels osites block_size (j + 1) w1 = Inr w'" "unchanged_views w0 w'"
      "odata w' = on_range (unat (j + 1) * ?B) ?top (chain fs) (odata w1)"
      by blast
    have run: "block_loop kernels osites block_size j w = Inr w'"
      using B True w1(1) w'(1) by (simp add: block_loop.simps [of kernels osites block_size j w])
    have next_le: "(unat j + 1) * ?B \<le> unat ?n * ?B"
      using lt by (intro mult_le_mono1) simp
    have "odata w' = on_range (unat j * ?B) ?top (chain fs) (odata w)"
      unfolding w'(3) w1(3) u0 u1 suc
      using next_le by (auto simp: on_range_def fun_eq_iff)
    with run w'(2) show ?thesis
      by simp
  qed
qed

lemma eval_micro_kernels_elementwise:
  assumes "block_size \<noteq> 0"
    and "list_all2 (elementwise w0 (o_sites (arg k))) (k # ks) fs"
    and "unchanged_views w0 w"
  shows "\<exists>w'. eval_micro_kernels (k # ks) block_size w = Inr w'
           \<and> odata w' =
               on_range 0
                 (min (unat (block_count (o_sites (arg k)) block_size) * unat block_size)
                    (unat (o_sites (arg k))))
                 (chain fs) (odata w)"
  using block_loop_elementwise [OF assms, of 0]
  by (auto simp: eval_micro_kernels_def)

lemma tiled_equals_untiled:
  assumes B: "block_size \<noteq> 0"
    and fits: "no_wrap (o_sites (arg k)) block_size"
    and ew: "list_all2 (elementwise w0 (o_sites (arg k))) (k # ks) fs"
    and w: "unchanged_views w0 w"
  shows "\<exists>w1 w2. eval_micro_kernels (k # ks) block_size w = Inr w1
           \<and> untiled_baseline (k # ks) (o_sites (arg k)) w = Inr w2
           \<and> odata w1 = odata w2"
proof -
  let ?O = "o_sites (arg k)"
  have "min (unat (block_count ?O block_size) * unat block_size) (unat ?O) = unat ?O"
    using block_count_covers [OF B fits] by simp
  then show ?thesis
    using eval_micro_kernels_elementwise [OF B ew w] untiled_baseline_elementwise [OF ew w]
    by auto
qed

lemma block_size_invariance:
  assumes "block_size \<noteq> 0" and "block_size' \<noteq> 0"
    and "no_wrap (o_sites (arg k)) block_size"
    and "no_wrap (o_sites (arg k)) block_size'"
    and ew: "list_all2 (elementwise w0 (o_sites (arg k))) (k # ks) fs"
    and w: "unchanged_views w0 w"
  shows "\<exists>w1 w2. eval_micro_kernels (k # ks) block_size w = Inr w1
           \<and> eval_micro_kernels (k # ks) block_size' w = Inr w2
           \<and> odata w1 = odata w2"
  using tiled_equals_untiled [OF assms(1,3) ew w] tiled_equals_untiled [OF assms(2,4) ew w]
  by auto

section \<open>\<open>mk_su3_mul\<close> as an elementwise kernel\<close>

lemma view_at_unchanged:
  "unchanged_views w0 w \<Longrightarrow> view_at a k w = view_at a k w0"
  by (simp add: unchanged_views_def view_at_def Let_def)

lemma mk_su3_mul_elementwise:
  fixes w0 :: "('v :: times) world"
  assumes dest: "view_at a 0 w0 = Inr dest"
    and left: "view_at a 1 w0 = Inr left"
    and right: "view_at a 2 w0 = Inr right"
    and "extent \<le> oSites w0 (view_lattice dest)"
    and "extent \<le> oSites w0 (view_lattice left)"
    and "extent \<le> oSites w0 (view_lattice right)"
  shows "elementwise w0 extent \<lparr>action = mk_su3_mul, arg = a\<rparr>
           (site_product (view_lattice dest) (view_lattice left) (view_lattice right))"
  unfolding elementwise_def
proof (intro allI impI, elim conjE)
  fix i0 i1 :: size_t and w :: "'v world"
  assume w: "unchanged_views w0 w" and range: "i0 \<le> i1" and top: "i1 \<le> extent"
  let ?a = "view_lattice dest" and ?b = "view_lattice left" and ?c = "view_lattice right"
  have sizes: "oSites w = oSites w0"
    using w by (simp add: unchanged_views_def)
  have le: "unat i0 \<le> unat i1"
    using range by (simp add: word_le_nat_alt)
  have hi: "unat i0 + unat (i1 - i0) = unat i1"
    using range le by (simp add: unat_sub)
  have bounds: "unat i0 + unat (i1 - i0) \<le> unat (oSites w ?a)"
    "unat i0 + unat (i1 - i0) \<le> unat (oSites w ?b)"
    "unat i0 + unat (i1 - i0) \<le> unat (oSites w ?c)"
    using top assms(4-6) unfolding hi sizes word_le_nat_alt by linarith+
  from thread_for_site_mul [OF refl _ bounds, of 0]
  obtain w' where w':
    "thread_for_in_region (\<lambda>k. site_mul ?a ?b ?c (unat i0 + k)) (i1 - i0) 0 w = Inr w'"
    "odata w' = (\<lambda>l i. if l = ?a \<and> unat i0 + unat (0 :: size_t) \<le> i \<and> i < unat i0 + unat (i1 - i0)
                          then odata w ?b i * odata w ?c i else odata w l i)"
    "oSites w' = oSites w" "heap w' = heap w"
    by auto
  have run: "mk_su3_mul a i0 i1 w = Inr w'"
    using dest left right w'(1) by (simp add: mk_su3_mul_def view_at_unchanged [OF w])
  have same: "unchanged_views w0 w'"
    using w w'(3,4) by (simp add: unchanged_views_def)
  have "odata w' = on_range (unat i0) (unat i1) (site_product ?a ?b ?c) (odata w)"
    unfolding w'(2) hi by (auto simp: on_range_def site_product_def fun_eq_iff)
  with run same
  show "\<exists>w'. action \<lparr>action = mk_su3_mul, arg = a\<rparr> (arg \<lparr>action = mk_su3_mul, arg = a\<rparr>) i0 i1 w = Inr w'
          \<and> unchanged_views w0 w'
          \<and> odata w' = on_range (unat i0) (unat i1) (site_product ?a ?b ?c) (odata w)"
    by simp
qed

lemma c_eq_a_times_b_elementwise:
  "elementwise (lattices_c_a_b n) n (c_eq_a_times_b n) (site_product 0 1 2)"
proof -
  let ?w = "lattices_c_a_b n"
  have v: "view_at (views_c_a_b n) 0 ?w = Inr \<lparr>view_lattice = 0, view_mode = AcceleratorWriteDiscard\<rparr>"
    "view_at (views_c_a_b n) 1 ?w = Inr \<lparr>view_lattice = 1, view_mode = AcceleratorRead\<rparr>"
    "view_at (views_c_a_b n) 2 ?w = Inr \<lparr>view_lattice = 2, view_mode = AcceleratorRead\<rparr>"
    by (simp_all add: view_at_def views_c_a_b_def lattices_c_a_b_def)
  have b: "n \<le> oSites ?w l" for l
    by (simp add: lattices_c_a_b_def)
  show ?thesis
    using mk_su3_mul_elementwise [OF v, of n] b
    by (simp add: c_eq_a_times_b_def)
qed

lemma c_eq_a_times_b_tiled:
  assumes "block_size \<noteq> 0"
  shows "\<exists>w'. eval_micro_kernels [c_eq_a_times_b n] block_size (lattices_c_a_b n) = Inr w'
     \<and> odata w' = on_range 0 (min (unat (block_count n block_size) * unat block_size) (unat n))
                     (site_product 0 1 2) (odata (lattices_c_a_b n))"
proof -
  have o: "o_sites (arg (c_eq_a_times_b n)) = n"
    by (simp add: c_eq_a_times_b_def views_c_a_b_def)
  have ew: "list_all2 (elementwise (lattices_c_a_b n) (o_sites (arg (c_eq_a_times_b n))))
              [c_eq_a_times_b n] [site_product 0 1 2]"
    unfolding o using c_eq_a_times_b_elementwise [of n]
    by (simp only: list.rel_inject simp_thms)
  have same: "unchanged_views (lattices_c_a_b n) (lattices_c_a_b n)"
    by (simp add: unchanged_views_def)
  have "chain [site_product 0 1 2 :: nat \<Rightarrow> (nat \<Rightarrow> int) \<Rightarrow> nat \<Rightarrow> int] = site_product 0 1 2"
    by (simp add: fun_eq_iff)
  then show ?thesis
    using eval_micro_kernels_elementwise [OF assms ew same] by (simp add: o)
qed

lemma c_eq_a_times_b_untiled:
  "\<exists>w'. untiled_baseline [c_eq_a_times_b n] n (lattices_c_a_b n) = Inr w'
     \<and> odata w' = on_range 0 (unat n) (site_product 0 1 2) (odata (lattices_c_a_b n))"
proof -
  have ew: "list_all2 (elementwise (lattices_c_a_b n) n) [c_eq_a_times_b n] [site_product 0 1 2]"
    using c_eq_a_times_b_elementwise [of n]
    by (simp only: list.rel_inject simp_thms)
  have same: "unchanged_views (lattices_c_a_b n) (lattices_c_a_b n)"
    by (simp add: unchanged_views_def)
  have "chain [site_product 0 1 2 :: nat \<Rightarrow> (nat \<Rightarrow> int) \<Rightarrow> nat \<Rightarrow> int] = site_product 0 1 2"
    by (simp add: fun_eq_iff)
  then show ?thesis
    using untiled_baseline_elementwise [OF ew same] by simp
qed

section \<open>Where the loop bound wraps around\<close>

text \<open>
  C1, at the schedule \<open>[c = a * b]\<close> on lattices of 2 sites with block size \<open>2 ^ 64 - 1\<close>:
  the loop bound wraps to \<open>0\<close>, the pass calls no action and \<open>c\<close> stays \<open>[0, 0]\<close>; the
  untiled baseline writes \<open>c = [2 * 5, 3 * 7]\<close>.
\<close>

theorem tiled_differs_from_untiled_when_wrapped:
  "map_sum id (\<lambda>w'. map (odata w' 0) [0, 1])
     (eval_micro_kernels [c_eq_a_times_b 2] (- 1) (lattices_c_a_b 2)) = Inr [0, 0]
   \<and> map_sum id (\<lambda>w'. map (odata w' 0) [0, 1])
     (untiled_baseline [c_eq_a_times_b 2] 2 (lattices_c_a_b 2)) = Inr [10, 21]"
proof -
  have "eval_micro_kernels [c_eq_a_times_b 2] (- 1) (lattices_c_a_b 2) = Inr (lattices_c_a_b 2)"
    by (simp add: eval_micro_kernels_def c_eq_a_times_b_def views_c_a_b_def
        block_loop.simps block_count_def)
  moreover have "map (odata (lattices_c_a_b 2) 0) [0, 1] = [0, 0]"
    by (simp add: lattices_c_a_b_def)
  moreover obtain w' where "untiled_baseline [c_eq_a_times_b 2] 2 (lattices_c_a_b 2) = Inr w'"
    "odata w' = on_range 0 (unat (2 :: size_t)) (site_product 0 1 2) (odata (lattices_c_a_b 2))"
    using c_eq_a_times_b_untiled [of 2] by blast
  moreover from this(2) have "map (odata w' 0) [0, 1] = [10, 21]"
    by (simp add: on_range_def site_product_def lattices_c_a_b_def)
  ultimately show ?thesis
    by simp
qed

text \<open>
  C5, at the same schedule and lattices: block sizes \<open>1\<close> and \<open>2\<close> both give
  \<open>c = [10, 21]\<close>, block size \<open>2 ^ 64 - 1\<close> leaves \<open>c = [0, 0]\<close>.
\<close>

theorem block_sizes_disagree_when_wrapped:
  "map_sum id (\<lambda>w'. map (odata w' 0) [0, 1])
     (eval_micro_kernels [c_eq_a_times_b 2] 1 (lattices_c_a_b 2)) = Inr [10, 21]
   \<and> map_sum id (\<lambda>w'. map (odata w' 0) [0, 1])
     (eval_micro_kernels [c_eq_a_times_b 2] 2 (lattices_c_a_b 2)) = Inr [10, 21]
   \<and> map_sum id (\<lambda>w'. map (odata w' 0) [0, 1])
     (eval_micro_kernels [c_eq_a_times_b 2] 18446744073709551615 (lattices_c_a_b 2)) = Inr [0, 0]"
proof -
  have n1: "unat (block_count 2 1) = 2" and n2: "unat (block_count 2 2) = 1"
    by (simp_all add: block_count_def)
  obtain w1 where w1: "eval_micro_kernels [c_eq_a_times_b 2] 1 (lattices_c_a_b 2) = Inr w1"
    "odata w1 = on_range 0 (min (unat (block_count 2 1) * unat (1 :: size_t)) (unat (2 :: size_t)))
                     (site_product 0 1 2) (odata (lattices_c_a_b 2))"
    using c_eq_a_times_b_tiled [of 1 2] by auto
  obtain w2 where w2: "eval_micro_kernels [c_eq_a_times_b 2] 2 (lattices_c_a_b 2) = Inr w2"
    "odata w2 = on_range 0 (min (unat (block_count 2 2) * unat (2 :: size_t)) (unat (2 :: size_t)))
                     (site_product 0 1 2) (odata (lattices_c_a_b 2))"
    using c_eq_a_times_b_tiled [of 2 2] by auto
  have "map (odata w1 0) [0, 1] = [10, 21]"
    unfolding w1(2) n1 by (simp add: on_range_def site_product_def lattices_c_a_b_def)
  moreover have "map (odata w2 0) [0, 1] = [10, 21]"
    unfolding w2(2) n2 by (simp add: on_range_def site_product_def lattices_c_a_b_def)
  moreover have "eval_micro_kernels [c_eq_a_times_b 2] 18446744073709551615 (lattices_c_a_b 2)
      = Inr (lattices_c_a_b 2)"
    by (simp add: eval_micro_kernels_def c_eq_a_times_b_def views_c_a_b_def
        block_loop.simps block_count_def)
  moreover have "map (odata (lattices_c_a_b 2) 0) [0, 1] = [0, 0]"
    by (simp add: lattices_c_a_b_def)
  ultimately show ?thesis
    using w1(1) w2(1) by simp
qed

text \<open>
  C8, at block size \<open>2 ^ 64 - 1\<close> and extent \<open>2\<close>: the numerator \<open>o_sites + block_size - 1\<close>
  wraps to \<open>0\<close>, the loop bound is \<open>0\<close>, and a pass over a kernel that counts its calls
  ends after no block, where \<open>ceil(extent / block_size)\<close> is \<open>1\<close>.
\<close>

theorem block_count_wraps_no_block:
  "eval_micro_kernels
     [\<lparr>action = (\<lambda>a i0 i1 (s :: nat). Inr (s + 1)), arg = \<lparr>views = [], o_sites = 2\<rparr>\<rparr>]
     (- 1) 0 = Inr 0
   \<and> block_count 2 (- 1) = 0
   \<and> ceil_div (unat (2 :: size_t)) (unat (- 1 :: size_t)) = 1"
proof -
  have "unat (- 1 :: size_t) = 2 ^ 64 - 1"
    by (simp add: unsigned_minus_1_eq_mask mask_eq_exp_minus_1)
  then show ?thesis
    by (simp add: eval_micro_kernels_def block_loop.simps block_count_def ceil_div_def)
qed

text \<open>
  C2, at extent \<open>16\<close> and block size \<open>5\<close> the blocks are \<open>[0,5) [5,10) [10,15) [15,16)\<close>;
  at extent \<open>2\<close> and block size \<open>2 ^ 64 - 1\<close> the loop generates no block at all, and the
  sites \<open>0\<close> and \<open>1\<close> are in none.
\<close>

theorem blocks_wrap_cover_nothing:
  "blocks 16 5 = [(0, 5), (5, 10), (10, 15), (15, 16)]
   \<and> blocks 2 (- 1) = []
   \<and> (\<Union>(i0, i1) \<in> set (blocks 2 (- 1)). {i0 ..< i1}) \<noteq> {0 ..< 2}"
proof -
  have nil: "blocks 2 (- 1) = []"
    by (simp add: blocks_def block_indices_def block_count_def)
  have "(0 :: size_t) \<in> {0 ..< 2}"
    by simp
  then have "{} \<noteq> {0 :: size_t ..< 2}"
    by blast
  then show ?thesis
    using nil blocks_16_5 by simp
qed

end
